theory Spec2Isabelle
  imports Main
begin

section \<open>Go strings and the library functions the parser calls\<close>

text \<open>
  A Go string is a sequence of bytes, which is what \<^typ>\<open>string\<close> is here.
  \<^verbatim>\<open>strings.HasPrefix(s, prefix)\<close> is
  \<^verbatim>\<open>len(s) >= len(prefix) && s[:len(prefix)] == prefix\<close>.
\<close>

definition strings_HasPrefix :: "string \<Rightarrow> string \<Rightarrow> bool" where
  "strings_HasPrefix s pre = (length pre \<le> length s \<and> take (length pre) s = pre)"

definition strings_HasSuffix :: "string \<Rightarrow> string \<Rightarrow> bool" where
  "strings_HasSuffix s suf =
     (length suf \<le> length s \<and> drop (length s - length suf) s = suf)"

text \<open>\<^verbatim>\<open>strings.Join(elems, sep)\<close>.\<close>

fun strings_Join :: "string list \<Rightarrow> string \<Rightarrow> string" where
  "strings_Join [] sep = []"
| "strings_Join [x] sep = x"
| "strings_Join (x # y # ys) sep = x @ sep @ strings_Join (y # ys) sep"

text \<open>
  \<^verbatim>\<open>strings.Index(s, substr)\<close>: the byte index of the first occurrence of
  \<^verbatim>\<open>substr\<close> in \<^verbatim>\<open>s\<close>, or \<open>-1\<close>.
\<close>

fun IndexFrom :: "string \<Rightarrow> string \<Rightarrow> nat \<Rightarrow> int" where
  "IndexFrom [] substr k = (if substr = [] then int k else - 1)"
| "IndexFrom (c # cs) substr k =
     (if strings_HasPrefix (c # cs) substr then int k else IndexFrom cs substr (k + 1))"

definition strings_Index :: "string \<Rightarrow> string \<Rightarrow> int" where
  "strings_Index s substr = IndexFrom s substr 0"

subsection \<open>White space\<close>

text \<open>
  \<^verbatim>\<open>strings.TrimSpace\<close> and \<^verbatim>\<open>strings.Fields\<close> decode the string as UTF-8 and
  test each rune with \<^verbatim>\<open>unicode.IsSpace\<close>: the six ASCII characters tab, line feed,
  vertical tab, form feed, carriage return and space, then U+0085, U+00A0, U+1680,
  U+2000 to U+200A, U+2028, U+2029, U+202F, U+205F and U+3000. The decoder accepts
  only the shortest encoding of a code point, so a rune of the string is white space
  exactly when its bytes are one of the entries of this table.
\<close>

definition unicodeSpace :: "string list" where
  "unicodeSpace =
    [[CHR 0x09], [CHR 0x0A], [CHR 0x0B], [CHR 0x0C], [CHR 0x0D], [CHR 0x20],
     [CHR 0xC2, CHR 0x85], [CHR 0xC2, CHR 0xA0],
     [CHR 0xE1, CHR 0x9A, CHR 0x80],
     [CHR 0xE2, CHR 0x80, CHR 0x80], [CHR 0xE2, CHR 0x80, CHR 0x81],
     [CHR 0xE2, CHR 0x80, CHR 0x82], [CHR 0xE2, CHR 0x80, CHR 0x83],
     [CHR 0xE2, CHR 0x80, CHR 0x84], [CHR 0xE2, CHR 0x80, CHR 0x85],
     [CHR 0xE2, CHR 0x80, CHR 0x86], [CHR 0xE2, CHR 0x80, CHR 0x87],
     [CHR 0xE2, CHR 0x80, CHR 0x88], [CHR 0xE2, CHR 0x80, CHR 0x89],
     [CHR 0xE2, CHR 0x80, CHR 0x8A],
     [CHR 0xE2, CHR 0x80, CHR 0xA8], [CHR 0xE2, CHR 0x80, CHR 0xA9],
     [CHR 0xE2, CHR 0x80, CHR 0xAF],
     [CHR 0xE2, CHR 0x81, CHR 0x9F],
     [CHR 0xE3, CHR 0x80, CHR 0x80]]"

text \<open>
  The width in bytes of the white-space rune the string starts with (ends with), and 0
  when it starts (ends) with a rune that is not white space, an invalid byte, or
  nothing. The first byte of every entry of the table is not a UTF-8 continuation
  byte, so forward decoding never steps over the start of an entry, and decoding the
  last rune (\<^verbatim>\<open>utf8.DecodeLastRuneInString\<close>) finds an entry exactly when the bytes end
  with it.
\<close>

definition leadSpace :: "string \<Rightarrow> nat" where
  "leadSpace s =
     (case find (strings_HasPrefix s) unicodeSpace of Some w \<Rightarrow> length w | None \<Rightarrow> 0)"

definition tailSpace :: "string \<Rightarrow> nat" where
  "tailSpace s =
     (case find (strings_HasSuffix s) unicodeSpace of Some w \<Rightarrow> length w | None \<Rightarrow> 0)"

lemma leadSpace_Nil [simp]: "leadSpace [] = 0"
  by (simp add: leadSpace_def unicodeSpace_def strings_HasPrefix_def)

lemma tailSpace_Nil [simp]: "tailSpace [] = 0"
  by (simp add: tailSpace_def unicodeSpace_def strings_HasSuffix_def)

text \<open>
  \<^verbatim>\<open>strings.TrimLeftFunc(s, unicode.IsSpace)\<close> and
  \<^verbatim>\<open>strings.TrimRightFunc(s, unicode.IsSpace)\<close>: runes are removed one at a time
  while they are white space.
\<close>

function TrimLeft :: "string \<Rightarrow> string" where
  "TrimLeft s = (if leadSpace s = 0 then s else TrimLeft (drop (leadSpace s) s))"
  by pat_completeness auto
termination
proof (relation "measure length")
  show "wf (measure length)" by simp
next
  fix s :: string
  assume "leadSpace s \<noteq> 0"
  then have "s \<noteq> []" by (cases s) simp_all
  with \<open>leadSpace s \<noteq> 0\<close> show "(drop (leadSpace s) s, s) \<in> measure length" by simp
qed

function TrimRight :: "string \<Rightarrow> string" where
  "TrimRight s =
     (if tailSpace s = 0 then s else TrimRight (take (length s - tailSpace s) s))"
  by pat_completeness auto
termination
proof (relation "measure length")
  show "wf (measure length)" by simp
next
  fix s :: string
  assume "tailSpace s \<noteq> 0"
  then have "s \<noteq> []" by (cases s) simp_all
  with \<open>tailSpace s \<noteq> 0\<close> show "(take (length s - tailSpace s) s, s) \<in> measure length"
    by simp
qed

declare TrimLeft.simps [simp del] TrimRight.simps [simp del]

text \<open>
  \<^verbatim>\<open>strings.TrimSpace(s)\<close> is \<^verbatim>\<open>TrimFunc(s, unicode.IsSpace)\<close>, the right trim of
  the left trim (its ASCII fast path computes the same string).
\<close>

definition strings_TrimSpace :: "string \<Rightarrow> string" where
  "strings_TrimSpace s = TrimRight (TrimLeft s)"

section \<open>The parser\<close>

text \<open>
  \<^verbatim>\<open>
  type Element struct {
      ID          string
      Description string
      Signature   string
  }
  \<close>
\<close>

record Element =
  ID :: string
  Description :: string
  Signature :: string

text \<open>
  The indentation test both extractors make under \<^verbatim>\<open>ignoreIndented\<close>:
  \<^verbatim>\<open>
  prefixPos := strings.Index(line, prefix)
  if prefixPos > 0 && strings.TrimSpace(line[:prefixPos]) == "" { i++; continue }
  \<close>
\<close>

definition indentedComment :: "string \<Rightarrow> string \<Rightarrow> bool" where
  "indentedComment line prefix =
     (let prefixPos = strings_Index line prefix
      in prefixPos > 0 \<and> strings_TrimSpace (take (nat prefixPos) line) = [])"

text \<open>
  The normalisation of a comment line, from its trimmed form:
  \<^verbatim>\<open>
  content := trimmedLine[prefixLen:]
  if len(content) > 0 && content[0] == ' ' { content = content[1:] }
  \<close>
  It is reached only when \<^verbatim>\<open>trimmedLine\<close> has the prefix, so the slice is in range.
\<close>

definition stripContent :: "string \<Rightarrow> nat \<Rightarrow> string" where
  "stripContent trimmedLine prefixLen =
     (let content = drop prefixLen trimmedLine
      in if length content > 0 \<and> content ! 0 = CHR '' '' then drop 1 content else content)"

subsection \<open>extractTopComment\<close>

text \<open>
  The loop of \<^verbatim>\<open>extractTopComment\<close>, on the index \<open>i\<close> and the buffer \<open>desc\<close>;
  it returns both as they are when the loop is left.
\<close>

function topLoop ::
  "string list \<Rightarrow> string \<Rightarrow> bool \<Rightarrow> nat \<Rightarrow> string list \<Rightarrow> nat \<times> string list" where
  "topLoop lines prefix ignoreIndented i desc =
     (if i < length lines then
        (let line = lines ! i; trimmedLine = strings_TrimSpace line
         in if \<not> strings_HasPrefix trimmedLine prefix then (i, desc)
            else if ignoreIndented \<and> indentedComment line prefix
            then topLoop lines prefix ignoreIndented (i + 1) desc
            else topLoop lines prefix ignoreIndented (i + 1)
                   (desc @ [stripContent trimmedLine (length prefix)]))
      else (i, desc))"
  by pat_completeness auto
termination
  by (relation "measure (\<lambda>(lines, prefix, ignoreIndented, i, desc). length lines - i)") auto

declare topLoop.simps [simp del]

definition extractTopComment ::
  "string list \<Rightarrow> string \<Rightarrow> bool \<Rightarrow> string \<times> string list" where
  "extractTopComment lines prefix ignoreIndented =
     (let (i, desc) = topLoop lines prefix ignoreIndented 0 []
      in (strings_Join desc [CHR 0x0A], drop i lines))"

subsection \<open>The regular expressions\<close>

text \<open>
  Go's \<^verbatim>\<open>regexp\<close> matches runes; its classes \<^verbatim>\<open>\s\<close> (tab, line feed,
  form feed, carriage return, space) and \<^verbatim>\<open>\w\<close> (digits, letters, underscore)
  and the literal characters of the three expressions are ASCII, so matching is the
  same on bytes.
\<close>

definition reSpace :: "char \<Rightarrow> bool" where
  "reSpace c = (c \<in> {CHR 0x09, CHR 0x0A, CHR 0x0C, CHR 0x0D, CHR 0x20})"

definition reWord :: "char \<Rightarrow> bool" where
  "reWord c =
     (let n = (of_char c :: nat)
      in (48 \<le> n \<and> n \<le> 57) \<or> (65 \<le> n \<and> n \<le> 90) \<or> n = 95 \<or> (97 \<le> n \<and> n \<le> 122))"

text \<open>
  \<^verbatim>\<open>regexp.MustCompile(`\s*{$`).ReplaceAllString(sig, "")\<close>. The expression
  matches at a position when a (longest) run of \<^verbatim>\<open>\s\<close> followed by one brace
  reaches the end of the text; the leftmost such position is taken, and the match,
  which ends the text, is replaced by nothing.
\<close>

definition braceAt :: "string \<Rightarrow> bool" where
  "braceAt s = (dropWhile reSpace s = [CHR ''{''])"

fun replaceBrace :: "string \<Rightarrow> string" where
  "replaceBrace [] = []"
| "replaceBrace (c # cs) = (if braceAt (c # cs) then [] else c # replaceBrace cs)"

text \<open>
  \<^verbatim>\<open>^(?:class|struct)\s+(\w+)\<close>, anchored at the start: the keyword, the longest
  non-empty run of \<^verbatim>\<open>\s\<close>, the longest non-empty run of \<^verbatim>\<open>\w\<close>, which is the
  submatch. The two classes are disjoint, so no shorter run leads to a match.
\<close>

definition keywordAt :: "string \<Rightarrow> string \<Rightarrow> string option" where
  "keywordAt kw sig =
     (if strings_HasPrefix sig kw then
        (let r = drop (length kw) sig;
             w = takeWhile reWord (dropWhile reSpace r)
         in if takeWhile reSpace r \<noteq> [] \<and> w \<noteq> [] then Some w else None)
      else None)"

definition classMatch :: "string \<Rightarrow> string option" where
  "classMatch sig =
     (case keywordAt ''class'' sig of Some w \<Rightarrow> Some w | None \<Rightarrow> keywordAt ''struct'' sig)"

text \<open>
  \<^verbatim>\<open>(\w+)\s*\(\<close>, searched from the left: at a position, the longest non-empty run
  of \<^verbatim>\<open>\w\<close>, the longest run of \<^verbatim>\<open>\s\<close>, then an opening parenthesis.
\<close>

definition funcAt :: "string \<Rightarrow> string option" where
  "funcAt s =
     (let w = takeWhile reWord s
      in case dropWhile reSpace (dropWhile reWord s) of
           [] \<Rightarrow> None
         | c # _ \<Rightarrow> if w \<noteq> [] \<and> c = CHR ''('' then Some w else None)"

fun funcMatch :: "string \<Rightarrow> string option" where
  "funcMatch [] = None"
| "funcMatch (c # cs) =
     (case funcAt (c # cs) of Some w \<Rightarrow> Some w | None \<Rightarrow> funcMatch cs)"

text \<open>
  \<^verbatim>\<open>\[([^\]]+)\]\<close> at a position: an opening bracket, the longest non-empty run of
  bytes other than the closing bracket, a closing bracket. The result is the submatch
  and the text after the match.
\<close>

definition bracketAt :: "string \<Rightarrow> (string \<times> string) option" where
  "bracketAt s =
     (case s of
        [] \<Rightarrow> None
      | c # cs \<Rightarrow>
          (let t = takeWhile (\<lambda>x. x \<noteq> CHR '']'') cs;
               r = dropWhile (\<lambda>x. x \<noteq> CHR '']'') cs
           in if c = CHR ''['' \<and> t \<noteq> [] \<and> r \<noteq> [] then Some (t, drop 1 r) else None))"

lemma bracketAt_shorter: "bracketAt s = Some (t, r) \<Longrightarrow> length r < length s"
proof -
  assume a: "bracketAt s = Some (t, r)"
  then obtain c cs where s: "s = c # cs" by (cases s) (simp_all add: bracketAt_def)
  from a s have "r = drop 1 (dropWhile (\<lambda>x. x \<noteq> CHR '']'') cs)"
    by (simp add: bracketAt_def Let_def split: if_splits)
  moreover have "length (dropWhile (\<lambda>x. x \<noteq> CHR '']'') cs) \<le> length cs"
    by (rule length_dropWhile_le)
  ultimately show ?thesis using s by simp
qed

text \<open>
  \<^verbatim>\<open>re.FindStringSubmatch(s)\<close> for the bracket expression: the leftmost match and
  its submatch, or nil (the empty list).
\<close>

fun bracketFind :: "string \<Rightarrow> string list" where
  "bracketFind [] = []"
| "bracketFind (c # cs) =
     (case bracketAt (c # cs) of
        Some (t, r) \<Rightarrow> [''['' @ t @ '']'', t]
      | None \<Rightarrow> bracketFind cs)"

text \<open>
  \<^verbatim>\<open>re.ReplaceAllStringFunc(src, repl)\<close> for the bracket expression: the matches
  are found from the left, each search starting where the previous match ended, and
  each match is replaced by \<^verbatim>\<open>repl(match)\<close>.
\<close>

function bracketReplaceAll :: "(string \<Rightarrow> string) \<Rightarrow> string \<Rightarrow> string" where
  "bracketReplaceAll repl [] = []"
| "bracketReplaceAll repl (c # cs) =
     (case bracketAt (c # cs) of
        Some (t, r) \<Rightarrow> repl (''['' @ t @ '']'') @ bracketReplaceAll repl r
      | None \<Rightarrow> c # bracketReplaceAll repl cs)"
  by pat_completeness auto
termination
  by (relation "measure (\<lambda>(repl, s). length s)") (auto dest: bracketAt_shorter)

subsection \<open>strings.Fields and the decimal of a count\<close>

text \<open>
  \<^verbatim>\<open>strings.Fields(s)\<close>: the maximal pieces of \<^verbatim>\<open>s\<close> between white-space runes.
\<close>

fun fieldTake :: "string \<Rightarrow> string" where
  "fieldTake [] = []"
| "fieldTake (c # cs) = (if leadSpace (c # cs) \<noteq> 0 then [] else c # fieldTake cs)"

fun fieldDrop :: "string \<Rightarrow> string" where
  "fieldDrop [] = []"
| "fieldDrop (c # cs) = (if leadSpace (c # cs) \<noteq> 0 then c # cs else fieldDrop cs)"

lemma length_fieldDrop: "length (fieldDrop s) \<le> length s"
  by (induction s) auto

lemma length_TrimLeft: "length (TrimLeft s) \<le> length s"
proof (induction s rule: TrimLeft.induct)
  case (1 s)
  show ?case
  proof (cases "leadSpace s = 0")
    case True
    then show ?thesis by (simp add: TrimLeft.simps)
  next
    case False
    then have "TrimLeft s = TrimLeft (drop (leadSpace s) s)"
      by (subst TrimLeft.simps) simp
    with 1 [OF False] show ?thesis by simp
  qed
qed

lemma leadSpace_TrimLeft: "leadSpace (TrimLeft s) = 0"
proof (induction s rule: TrimLeft.induct)
  case (1 s)
  show ?case
  proof (cases "leadSpace s = 0")
    case True
    then show ?thesis by (simp add: TrimLeft.simps)
  next
    case False
    then have "TrimLeft s = TrimLeft (drop (leadSpace s) s)"
      by (subst TrimLeft.simps) simp
    with 1 [OF False] show ?thesis by simp
  qed
qed

lemma fieldDrop_TrimLeft_shorter:
  assumes "TrimLeft s \<noteq> []"
  shows "length (fieldDrop (TrimLeft s)) < length s"
proof -
  from assms obtain c cs where t: "TrimLeft s = c # cs" by (cases "TrimLeft s") auto
  have "leadSpace (c # cs) = 0" using leadSpace_TrimLeft [of s] t by simp
  then have "fieldDrop (c # cs) = fieldDrop cs" by simp
  then have "length (fieldDrop (TrimLeft s)) \<le> length cs"
    using t length_fieldDrop [of cs] by simp
  also have "length cs < length (TrimLeft s)" using t by simp
  also have "\<dots> \<le> length s" by (rule length_TrimLeft)
  finally show ?thesis .
qed

function strings_Fields :: "string \<Rightarrow> string list" where
  "strings_Fields s =
     (let t = TrimLeft s
      in if t = [] then [] else fieldTake t # strings_Fields (fieldDrop t))"
  by pat_completeness auto
termination
  by (relation "measure length") (auto intro: fieldDrop_TrimLeft_shorter)

declare strings_Fields.simps [simp del]

text \<open>\<^verbatim>\<open>%d\<close> of a length, which is never negative.\<close>

function itoa :: "nat \<Rightarrow> string" where
  "itoa n =
     (if n < 10 then [''0123456789'' ! n]
      else itoa (n div 10) @ [''0123456789'' ! (n mod 10)])"
  by pat_completeness auto
termination
  by (relation "measure id") auto

declare itoa.simps [simp del]

subsection \<open>extractIDFromSig\<close>

definition extractIDFromSig :: "string \<Rightarrow> string" where
  "extractIDFromSig sig =
     (case classMatch sig of
        Some w \<Rightarrow> w
      | None \<Rightarrow>
          (case funcMatch sig of
             Some w \<Rightarrow> w
           | None \<Rightarrow> (case strings_Fields sig of w # _ \<Rightarrow> w | [] \<Rightarrow> [])))"

subsection \<open>extractElements\<close>

text \<open>
  The loop that collects a run (only the prefix test is made here):
  \<^verbatim>\<open>
  var desc []string
  for i < len(lines) {
      line := lines[i]
      trimmedLine := strings.TrimSpace(line)
      if !strings.HasPrefix(trimmedLine, prefix) { break }
      content := ... ; desc = append(desc, content); i++
  }
  \<close>
\<close>

function collectLoop ::
  "string list \<Rightarrow> string \<Rightarrow> nat \<Rightarrow> string list \<Rightarrow> nat \<times> string list" where
  "collectLoop lines prefix i desc =
     (if i < length lines then
        (let line = lines ! i; trimmedLine = strings_TrimSpace line
         in if \<not> strings_HasPrefix trimmedLine prefix then (i, desc)
            else collectLoop lines prefix (i + 1)
                   (desc @ [stripContent trimmedLine (length prefix)]))
      else (i, desc))"
  by pat_completeness auto
termination
  by (relation "measure (\<lambda>(lines, prefix, i, desc). length lines - i)") auto

declare collectLoop.simps [simp del]

text \<open>
  The loop over the lines between the run and the signature:
  \<^verbatim>\<open>
  for i < len(lines) && (strings.TrimSpace(lines[i]) == "" ||
      strings.HasPrefix(strings.TrimSpace(lines[i]), prefix)) { i++ }
  \<close>
\<close>

function skipLoop :: "string list \<Rightarrow> string \<Rightarrow> nat \<Rightarrow> nat" where
  "skipLoop lines prefix i =
     (if i < length lines \<and>
         (strings_TrimSpace (lines ! i) = [] \<or>
          strings_HasPrefix (strings_TrimSpace (lines ! i)) prefix)
      then skipLoop lines prefix (i + 1) else i)"
  by pat_completeness auto
termination
  by (relation "measure (\<lambda>(lines, prefix, i). length lines - i)") auto

declare skipLoop.simps [simp del]

text \<open>
  The capture of the signature; the result is the signature and the index after it:
  \<^verbatim>\<open>
  sig := ""
  if i < len(lines) && strings.TrimSpace(lines[i]) != "" {
      sig = strings.TrimSpace(lines[i])
      sig = regexp.MustCompile(`\s*{$`).ReplaceAllString(sig, "")
      i++
  }
  \<close>
\<close>

definition captureSig :: "string list \<Rightarrow> nat \<Rightarrow> string \<times> nat" where
  "captureSig lines i =
     (if i < length lines \<and> strings_TrimSpace (lines ! i) \<noteq> []
      then (replaceBrace (strings_TrimSpace (lines ! i)), i + 1)
      else ([], i))"

text \<open>
  One turn of the outer loop of \<^verbatim>\<open>extractElements\<close>, entered with
  \<open>i < length lines\<close>: the index and the elements after it. The branch
  \<^verbatim>\<open>if len(desc) == 0 { continue }\<close> is kept as the source has it.
\<close>

definition elemIter ::
  "string list \<Rightarrow> string \<Rightarrow> bool \<Rightarrow> nat \<Rightarrow> Element list \<Rightarrow> nat \<times> Element list" where
  "elemIter lines prefix ignoreIndented i elements =
     (let line = lines ! i; trimmedLine = strings_TrimSpace line
      in if \<not> strings_HasPrefix trimmedLine prefix then (i + 1, elements)
         else if ignoreIndented \<and> indentedComment line prefix then (i + 1, elements)
         else
           (let (i1, desc) = collectLoop lines prefix i []
            in if length desc = 0 then (i1, elements)
               else
                 (let descMD = strings_Join desc [CHR 0x0A];
                      i2 = skipLoop lines prefix i1;
                      (sig, i3) = captureSig lines i2;
                      id0 = extractIDFromSig sig;
                      id1 = (if id0 = [] then ''unnamed_'' @ itoa (length elements) else id0)
                  in (i3, elements @ [\<lparr>ID = id1, Description = descMD, Signature = sig\<rparr>]))))"

text \<open>The loops in terms of the lines that are left, \<open>drop i lines\<close>.\<close>

definition hasDocPrefix :: "string \<Rightarrow> string \<Rightarrow> bool" where
  "hasDocPrefix prefix line = strings_HasPrefix (strings_TrimSpace line) prefix"

definition content :: "string \<Rightarrow> string \<Rightarrow> string" where
  "content prefix line = stripContent (strings_TrimSpace line) (length prefix)"

definition blankLine :: "string \<Rightarrow> bool" where
  "blankLine line = (strings_TrimSpace line = [])"

text \<open>A line the indentation policy does not exclude.\<close>

definition kept :: "string \<Rightarrow> bool \<Rightarrow> string \<Rightarrow> bool" where
  "kept prefix ignoreIndented line = (\<not> (ignoreIndented \<and> indentedComment line prefix))"

lemma drop_nth_Cons: "i < length xs \<Longrightarrow> drop i xs = xs ! i # drop (Suc i) xs"
  by (simp add: Cons_nth_drop_Suc)

lemma collectLoop_eq:
  "collectLoop lines prefix i desc =
     (i + length (takeWhile (hasDocPrefix prefix) (drop i lines)),
      desc @ map (content prefix) (takeWhile (hasDocPrefix prefix) (drop i lines)))"
proof (induction lines prefix i desc rule: collectLoop.induct)
  case (1 lines prefix i desc)
  show ?case
  proof (cases "i < length lines")
    case False
    then show ?thesis by (subst collectLoop.simps) simp
  next
    case True
    note d = drop_nth_Cons [OF True]
    show ?thesis
    proof (cases "hasDocPrefix prefix (lines ! i)")
      case False
      then show ?thesis
        using True by (subst collectLoop.simps) (simp add: d hasDocPrefix_def)
    next
      case q: True
      then have h: "strings_HasPrefix (strings_TrimSpace (lines ! i)) prefix"
        by (simp add: hasDocPrefix_def)
      have step: "collectLoop lines prefix i desc =
            collectLoop lines prefix (i + 1)
              (desc @ [stripContent (strings_TrimSpace (lines ! i)) (length prefix)])"
        using True h by (subst collectLoop.simps) simp
      have ih: "collectLoop lines prefix (i + 1)
              (desc @ [stripContent (strings_TrimSpace (lines ! i)) (length prefix)]) =
            (i + 1 + length (takeWhile (hasDocPrefix prefix) (drop (i + 1) lines)),
             (desc @ [stripContent (strings_TrimSpace (lines ! i)) (length prefix)]) @
             map (content prefix) (takeWhile (hasDocPrefix prefix) (drop (i + 1) lines)))"
        using 1 [OF True refl refl] h by simp
      show ?thesis unfolding step ih using q by (simp add: d content_def)
    qed
  qed
qed

lemma skipLoop_eq:
  "skipLoop lines prefix i =
     i + length (takeWhile (\<lambda>l. blankLine l \<or> hasDocPrefix prefix l) (drop i lines))"
proof (induction lines prefix i rule: skipLoop.induct)
  case (1 lines prefix i)
  show ?case
  proof (cases "i < length lines")
    case False
    then show ?thesis by (subst skipLoop.simps) simp
  next
    case True
    note d = drop_nth_Cons [OF True]
    show ?thesis
    proof (cases "blankLine (lines ! i) \<or> hasDocPrefix prefix (lines ! i)")
      case False
      then show ?thesis
        using True by (subst skipLoop.simps) (simp add: d hasDocPrefix_def blankLine_def)
    next
      case q: True
      then have c: "i < length lines \<and>
          (strings_TrimSpace (lines ! i) = [] \<or>
           strings_HasPrefix (strings_TrimSpace (lines ! i)) prefix)"
        using True by (simp add: hasDocPrefix_def blankLine_def)
      have step: "skipLoop lines prefix i = skipLoop lines prefix (i + 1)"
        using c by (subst skipLoop.simps) simp
      show ?thesis unfolding step 1 [OF c] using q by (simp add: d)
    qed
  qed
qed

lemma captureSig_index: "i \<le> snd (captureSig lines i)"
  by (simp add: captureSig_def)

text \<open>
  Once the prefix test has passed at \<open>i\<close>, the run collected from \<open>i\<close> has that
  line in it: the buffer is never empty, and the index moves.
\<close>

lemma collectLoop_nonempty:
  assumes "i < length lines" and "hasDocPrefix prefix (lines ! i)"
  shows "snd (collectLoop lines prefix i []) \<noteq> []"
    and "i < fst (collectLoop lines prefix i [])"
  using assms by (simp_all add: collectLoop_eq drop_nth_Cons)

lemma elemIter_advances:
  assumes "i < length lines"
  shows "i < fst (elemIter lines prefix ignoreIndented i elements)"
proof (cases "hasDocPrefix prefix (lines ! i) \<and>
              \<not> (ignoreIndented \<and> indentedComment (lines ! i) prefix)")
  case False
  then show ?thesis by (auto simp: elemIter_def hasDocPrefix_def Let_def)
next
  case True
  obtain i1 desc where c: "collectLoop lines prefix i [] = (i1, desc)"
    by (cases "collectLoop lines prefix i []")
  from collectLoop_nonempty [OF assms, of prefix] True c
  have ne: "desc \<noteq> []" and lt: "i < i1" by simp_all
  have "i1 \<le> skipLoop lines prefix i1" by (simp add: skipLoop_eq)
  also have "\<dots> \<le> snd (captureSig lines (skipLoop lines prefix i1))"
    by (rule captureSig_index)
  finally have "i < snd (captureSig lines (skipLoop lines prefix i1))" using lt by simp
  then show ?thesis
    using True c ne by (auto simp: elemIter_def hasDocPrefix_def Let_def split: prod.splits)
qed

text \<open>
  The outer loop, and the function:
  \<^verbatim>\<open>
  for i < len(lines) { ... }
  return elements, lines[i:]
  \<close>
\<close>

function elementsLoop ::
  "string list \<Rightarrow> string \<Rightarrow> bool \<Rightarrow> nat \<Rightarrow> Element list \<Rightarrow> Element list \<times> string list"
  where
  "elementsLoop lines prefix ignoreIndented i elements =
     (if i < length lines then
        (let r = elemIter lines prefix ignoreIndented i elements
         in elementsLoop lines prefix ignoreIndented (fst r) (snd r))
      else (elements, drop i lines))"
  by pat_completeness auto
termination
proof (relation "measure (\<lambda>(lines, prefix, ignoreIndented, i, elements). length lines - i)")
  show "wf (measure (\<lambda>(lines, prefix, ignoreIndented, i, elements).
              length lines - i))"
    by simp
next
  fix lines :: "string list" and prefix :: string and ignoreIndented :: bool
    and i :: nat and elements :: "Element list" and r
  assume "i < length lines" and "r = elemIter lines prefix ignoreIndented i elements"
  then show "((lines, prefix, ignoreIndented, fst r, snd r),
              (lines, prefix, ignoreIndented, i, elements))
             \<in> measure (\<lambda>(lines, prefix, ignoreIndented, i, elements). length lines - i)"
    using elemIter_advances [of i lines prefix ignoreIndented elements]
    by (simp add: case_prod_beta)
qed

declare elementsLoop.simps [simp del]

definition extractElements ::
  "string list \<Rightarrow> string \<Rightarrow> bool \<Rightarrow> Element list \<times> string list" where
  "extractElements lines prefix ignoreIndented =
     elementsLoop lines prefix ignoreIndented 0 []"

subsection \<open>ProcessBacklinks\<close>

text \<open>
  The index is a Go map, here a partial function; the third parameter is not used.
  \<^verbatim>\<open>
  return re.ReplaceAllStringFunc(desc, func(match string) string {
      submatch := re.FindStringSubmatch(match)
      if len(submatch) == 2 {
          targetID := submatch[1]
          if link, ok := linkIndex[targetID]; ok {
              return fmt.Sprintf("[%s](%s)", targetID, link)
          }
      }
      return match
  })
  \<close>
\<close>

definition backlink :: "(string \<rightharpoonup> string) \<Rightarrow> string \<Rightarrow> string" where
  "backlink linkIndex match =
     (let submatch = bracketFind match
      in if length submatch = 2 then
           (let targetID = submatch ! 1
            in case linkIndex targetID of
                 Some link \<Rightarrow> ''['' @ targetID @ '']('' @ link @ '')''
               | None \<Rightarrow> match)
         else match)"

definition ProcessBacklinks :: "string \<Rightarrow> (string \<rightharpoonup> string) \<Rightarrow> string \<Rightarrow> string" where
  "ProcessBacklinks desc linkIndex prefix = bracketReplaceAll (backlink linkIndex) desc"

section \<open>Notions the properties are stated with\<close>

text \<open>The element a turn of the outer loop appends, from the count of elements before it.\<close>

definition newElement :: "nat \<Rightarrow> string \<Rightarrow> string \<Rightarrow> Element" where
  "newElement k descMD sig =
     \<lparr>ID = (if extractIDFromSig sig = [] then ''unnamed_'' @ itoa k else extractIDFromSig sig),
      Description = descMD, Signature = sig\<rparr>"

text \<open>A line the loop between the run and the signature steps over.\<close>

definition gapLine :: "string \<Rightarrow> string \<Rightarrow> bool" where
  "gapLine prefix line = (blankLine line \<or> hasDocPrefix prefix line)"

text \<open>
  The spec's words for the brace: a trailing run of white space (the \<^verbatim>\<open>\s\<close> of the
  expression) followed by a single opening brace at the end is removed.
\<close>

definition stripTrailingBrace :: "string \<Rightarrow> string" where
  "stripTrailingBrace s =
     (if s \<noteq> [] \<and> last s = CHR ''{''
      then rev (dropWhile reSpace (rev (butlast s))) else s)"

text \<open>
  An input made of comment-run-then-signature pairs: each pair is the lines before its
  run, the run and the signature line; \<open>tail\<close> is what follows the last pair.
\<close>

fun pairsInput :: "(string list \<times> string list \<times> string) list \<Rightarrow> string list \<Rightarrow> string list"
  where
  "pairsInput [] tail = tail"
| "pairsInput ((filler, run, sigLine) # pairs) tail =
     filler @ run @ [sigLine] @ pairsInput pairs tail"

text \<open>
  The lines between pairs are lines the search for a run steps over; a run is a
  non-empty sequence of prefixed lines whose first line the policy keeps; the
  signature line is neither blank nor prefixed.
\<close>

definition goodPair :: "string \<Rightarrow> bool \<Rightarrow> string list \<times> string list \<times> string \<Rightarrow> bool" where
  "goodPair prefix ign pair =
     (case pair of (filler, run, sigLine) \<Rightarrow>
        list_all (\<lambda>l. \<not> hasDocPrefix prefix l \<or> \<not> kept prefix ign l) filler \<and>
        run \<noteq> [] \<and> list_all (hasDocPrefix prefix) run \<and> kept prefix ign (hd run) \<and>
        \<not> blankLine sigLine \<and> \<not> hasDocPrefix prefix sigLine)"

text \<open>The elements expected of the pairs, the first of them being number \<open>k\<close>.\<close>

fun pairElements ::
  "string \<Rightarrow> nat \<Rightarrow> (string list \<times> string list \<times> string) list \<Rightarrow> Element list" where
  "pairElements prefix k [] = []"
| "pairElements prefix k ((filler, run, sigLine) # pairs) =
     newElement k (strings_Join (map (content prefix) run) [CHR 0x0A])
       (replaceBrace (strings_TrimSpace sigLine))
     # pairElements prefix (k + 1) pairs"





section \<open>Properties of the module description extractor\<close>

lemma topLoop_eq:
  "topLoop lines prefix ign i desc =
     (i + length (takeWhile (hasDocPrefix prefix) (drop i lines)),
      desc @ map (content prefix)
               (filter (kept prefix ign) (takeWhile (hasDocPrefix prefix) (drop i lines))))"
proof (induction lines prefix ign i desc rule: topLoop.induct)
  case (1 lines prefix ign i desc)
  show ?case
  proof (cases "i < length lines")
    case False
    then show ?thesis by (subst topLoop.simps) simp
  next
    case True
    note d = drop_nth_Cons [OF True]
    show ?thesis
    proof (cases "hasDocPrefix prefix (lines ! i)")
      case False
      then show ?thesis
        using True by (subst topLoop.simps) (simp add: d hasDocPrefix_def)
    next
      case q: True
      then have h: "strings_HasPrefix (strings_TrimSpace (lines ! i)) prefix"
        by (simp add: hasDocPrefix_def)
      show ?thesis
      proof (cases "ign \<and> indentedComment (lines ! i) prefix")
        case ind: True
        have step: "topLoop lines prefix ign i desc = topLoop lines prefix ign (i + 1) desc"
          using True h ind by (subst topLoop.simps) simp
        have ih: "topLoop lines prefix ign (i + 1) desc =
            (i + 1 + length (takeWhile (hasDocPrefix prefix) (drop (i + 1) lines)),
             desc @ map (content prefix)
               (filter (kept prefix ign) (takeWhile (hasDocPrefix prefix) (drop (i + 1) lines))))"
          using 1(1) [OF True refl refl] h ind by simp
        have k: "\<not> kept prefix ign (lines ! i)" using ind by (simp add: kept_def)
        show ?thesis unfolding step ih using q k by (simp add: d)
      next
        case ind: False
        have step: "topLoop lines prefix ign i desc =
            topLoop lines prefix ign (i + 1)
              (desc @ [stripContent (strings_TrimSpace (lines ! i)) (length prefix)])"
          using True h ind by (subst topLoop.simps) auto
        have ih: "topLoop lines prefix ign (i + 1)
              (desc @ [stripContent (strings_TrimSpace (lines ! i)) (length prefix)]) =
            (i + 1 + length (takeWhile (hasDocPrefix prefix) (drop (i + 1) lines)),
             (desc @ [stripContent (strings_TrimSpace (lines ! i)) (length prefix)]) @
             map (content prefix)
               (filter (kept prefix ign) (takeWhile (hasDocPrefix prefix) (drop (i + 1) lines))))"
          using 1(2) [OF True refl refl] h ind by simp
        have k: "kept prefix ign (lines ! i)" using ind by (simp add: kept_def)
        show ?thesis unfolding step ih using q k by (simp add: d content_def)
      qed
    qed
  qed
qed

lemma drop_length_takeWhile: "drop (length (takeWhile P xs)) xs = dropWhile P xs"
  by (induction xs) auto


section \<open>Properties of the element extractor\<close>

lemma skipLoop_gap:
  "skipLoop lines prefix i = i + length (takeWhile (gapLine prefix) (drop i lines))"
proof -
  have "gapLine prefix = (\<lambda>l. blankLine l \<or> hasDocPrefix prefix l)"
    by (simp add: fun_eq_iff gapLine_def)
  then show ?thesis by (simp add: skipLoop_eq)
qed

lemma elemIter_skip:
  assumes "\<not> hasDocPrefix prefix (lines ! i) \<or> \<not> kept prefix ign (lines ! i)"
  shows "elemIter lines prefix ign i els = (i + 1, els)"
  using assms by (auto simp: elemIter_def hasDocPrefix_def kept_def Let_def)

lemma elemIter_emit:
  assumes "i < length lines" and "hasDocPrefix prefix (lines ! i)"
    and "kept prefix ign (lines ! i)"
  shows "elemIter lines prefix ign i els =
     (snd (captureSig lines
             (skipLoop lines prefix
                (i + length (takeWhile (hasDocPrefix prefix) (drop i lines))))),
      els @ [newElement (length els)
               (strings_Join (map (content prefix)
                  (takeWhile (hasDocPrefix prefix) (drop i lines))) [CHR 0x0A])
               (fst (captureSig lines
                  (skipLoop lines prefix
                     (i + length (takeWhile (hasDocPrefix prefix) (drop i lines))))))])"
proof -
  have ne: "takeWhile (hasDocPrefix prefix) (drop i lines) \<noteq> []"
    using assms(1,2) by (simp add: drop_nth_Cons)
  have h: "strings_HasPrefix (strings_TrimSpace (lines ! i)) prefix"
    using assms(2) by (simp add: hasDocPrefix_def)
  have k: "\<not> (ign \<and> indentedComment (lines ! i) prefix)"
    using assms(3) by (simp add: kept_def)
  show ?thesis
    using h k ne
    by (simp add: elemIter_def Let_def collectLoop_eq newElement_def split: prod.splits)
qed

lemma captureSig_drop:
  "captureSig lines (i + j) =
     (fst (captureSig (drop i lines) j), i + snd (captureSig (drop i lines) j))"
  by (auto simp: captureSig_def add.commute)

lemma elemIter_drop:
  assumes "i < length lines"
  shows "elemIter lines prefix ign i els =
     (i + fst (elemIter (drop i lines) prefix ign 0 els),
      snd (elemIter (drop i lines) prefix ign 0 els))"
proof (cases "hasDocPrefix prefix (lines ! i) \<and> kept prefix ign (lines ! i)")
  case False
  then have a: "\<not> hasDocPrefix prefix (lines ! i) \<or> \<not> kept prefix ign (lines ! i)" by simp
  then have b: "\<not> hasDocPrefix prefix (drop i lines ! 0) \<or> \<not> kept prefix ign (drop i lines ! 0)"
    using assms by simp
  show ?thesis by (simp add: elemIter_skip [OF a] elemIter_skip [OF b])
next
  case True
  then have a: "hasDocPrefix prefix (lines ! i)" "kept prefix ign (lines ! i)" by simp_all
  have b: "0 < length (drop i lines)" "hasDocPrefix prefix (drop i lines ! 0)"
    "kept prefix ign (drop i lines ! 0)"
    using assms a by simp_all
  let ?n = "length (takeWhile (hasDocPrefix prefix) (drop i lines))"
  have s: "skipLoop lines prefix (i + ?n) = i + skipLoop (drop i lines) prefix ?n"
    by (simp add: skipLoop_gap add.commute)
  show ?thesis
    unfolding elemIter_emit [OF assms a] elemIter_emit [OF b]
    by (simp add: s captureSig_drop)
qed

lemma elementsLoop_drop:
  "elementsLoop lines prefix ign i els = elementsLoop (drop i lines) prefix ign 0 els"
proof (induction "length lines - i" arbitrary: lines i els rule: less_induct)
  case less
  show ?case
  proof (cases "i < length lines")
    case False
    then show ?thesis
      by (subst elementsLoop.simps, subst (2) elementsLoop.simps) simp
  next
    case True
    let ?r = "elemIter lines prefix ign i els"
    let ?q = "elemIter (drop i lines) prefix ign 0 els"
    have adv: "i < fst ?r" by (rule elemIter_advances [OF True])
    have r: "fst ?r = i + fst ?q" "snd ?r = snd ?q"
      using elemIter_drop [OF True, of prefix ign els] by simp_all
    have "elementsLoop lines prefix ign i els = elementsLoop lines prefix ign (fst ?r) (snd ?r)"
      using True by (subst elementsLoop.simps) (simp add: Let_def)
    also have "\<dots> = elementsLoop (drop (fst ?r) lines) prefix ign 0 (snd ?r)"
      using adv True by (intro less) arith
    finally have lhs: "elementsLoop lines prefix ign i els =
        elementsLoop (drop (fst ?r) lines) prefix ign 0 (snd ?r)" .
    have pos: "0 < fst ?q" using adv r by simp
    have "elementsLoop (drop i lines) prefix ign 0 els =
          elementsLoop (drop i lines) prefix ign (fst ?q) (snd ?q)"
      using True by (subst elementsLoop.simps) (simp add: Let_def)
    also have "\<dots> = elementsLoop (drop (fst ?q) (drop i lines)) prefix ign 0 (snd ?q)"
      using pos True by (intro less) simp
    finally have rhs: "elementsLoop (drop i lines) prefix ign 0 els =
        elementsLoop (drop (fst ?q) (drop i lines)) prefix ign 0 (snd ?q)" .
    show ?thesis unfolding lhs rhs by (simp add: r add.commute)
  qed
qed

text \<open>The outer loop on the lines that are left.\<close>

lemma elementsLoop_Nil: "elementsLoop [] prefix ign 0 els = (els, [])"
  by (subst elementsLoop.simps) simp

lemma elementsLoop_skip:
  assumes "\<not> hasDocPrefix prefix l \<or> \<not> kept prefix ign l"
  shows "elementsLoop (l # ls) prefix ign 0 els = elementsLoop ls prefix ign 0 els"
proof -
  have "elemIter (l # ls) prefix ign 0 els = (1, els)"
    using elemIter_skip [of prefix "l # ls" 0 ign els] assms by simp
  then have "elementsLoop (l # ls) prefix ign 0 els = elementsLoop (l # ls) prefix ign 1 els"
    by (subst elementsLoop.simps) simp
  also have "\<dots> = elementsLoop ls prefix ign 0 els"
    by (subst elementsLoop_drop) simp
  finally show ?thesis .
qed

lemma elementsLoop_emit:
  assumes "hasDocPrefix prefix l" and "kept prefix ign l"
  shows "elementsLoop (l # ls) prefix ign 0 els =
     (let descMD = strings_Join (map (content prefix)
                     (takeWhile (hasDocPrefix prefix) (l # ls))) [CHR 0x0A]
      in case dropWhile (gapLine prefix) (dropWhile (hasDocPrefix prefix) (l # ls)) of
           [] \<Rightarrow> (els @ [newElement (length els) descMD []], [])
         | s # rest \<Rightarrow>
             elementsLoop rest prefix ign 0
               (els @ [newElement (length els) descMD (replaceBrace (strings_TrimSpace s))]))"
proof -
  let ?lines = "l # ls"
  let ?n = "length (takeWhile (hasDocPrefix prefix) ?lines)"
  let ?i2 = "skipLoop ?lines prefix ?n"
  let ?g = "dropWhile (gapLine prefix) (dropWhile (hasDocPrefix prefix) ?lines)"
  have a: "0 < length ?lines" "hasDocPrefix prefix (?lines ! 0)" "kept prefix ign (?lines ! 0)"
    using assms by simp_all
  have it: "elemIter ?lines prefix ign 0 els =
     (snd (captureSig ?lines ?i2),
      els @ [newElement (length els)
               (strings_Join (map (content prefix)
                  (takeWhile (hasDocPrefix prefix) ?lines)) [CHR 0x0A])
               (fst (captureSig ?lines ?i2))])"
    using elemIter_emit [OF a, of els] by simp
  have g: "drop ?i2 ?lines = ?g"
    by (simp only: skipLoop_gap drop_length_takeWhile add.commute [of ?n]
          drop_drop [symmetric])
  have step: "elementsLoop ?lines prefix ign 0 els =
      elementsLoop (drop (snd (captureSig ?lines ?i2)) ?lines) prefix ign 0
        (els @ [newElement (length els)
               (strings_Join (map (content prefix)
                  (takeWhile (hasDocPrefix prefix) ?lines)) [CHR 0x0A])
               (fst (captureSig ?lines ?i2))])"
    by (subst elementsLoop.simps, simp only: it Let_def fst_conv snd_conv,
        subst elementsLoop_drop) simp
  show ?thesis
  proof (cases ?g)
    case Nil
    have d: "drop ?i2 ?lines = []" using g Nil by (simp only:)
    then have "length ?lines \<le> ?i2" by (simp only: drop_eq_Nil)
    then have c: "captureSig ?lines ?i2 = ([], ?i2)" by (simp add: captureSig_def)
    show ?thesis
      unfolding step c snd_conv fst_conv d using Nil by (simp only: elementsLoop_Nil Let_def list.case)
  next
    case (Cons s rest)
    then have lt: "?i2 < length ?lines" using g by (metis drop_all leI list.discI)
    have nth: "?lines ! ?i2 = s" using g Cons lt
      by (metis Cons_nth_drop_Suc list.inject)
    have rest: "drop (Suc ?i2) ?lines = rest" using g Cons lt
      by (metis Cons_nth_drop_Suc list.inject)
    have "\<not> gapLine prefix s"
      using Cons by (metis dropWhile_eq_Cons_conv)
    then have "strings_TrimSpace s \<noteq> []" by (simp add: gapLine_def blankLine_def)
    then have c: "captureSig ?lines ?i2 = (replaceBrace (strings_TrimSpace s), Suc ?i2)"
      using lt nth by (simp add: captureSig_def)
    show ?thesis
      unfolding step c using Cons rest by (simp add: Let_def)
  qed
qed

section \<open>Progress of the element extractor\<close>

lemma skipLoop_bound:
  assumes "i \<le> length lines"
  shows "skipLoop lines prefix i \<le> length lines"
proof -
  have "length (takeWhile (gapLine prefix) (drop i lines)) \<le> length (drop i lines)"
    by (rule length_takeWhile_le)
  then show ?thesis using assms by (simp add: skipLoop_gap)
qed

lemma captureSig_bound:
  assumes "i \<le> length lines"
  shows "snd (captureSig lines i) \<le> length lines"
  using assms by (simp add: captureSig_def)

lemma elemIter_bound:
  assumes "i < length lines"
  shows "fst (elemIter lines prefix ign i els) \<le> length lines"
proof (cases "hasDocPrefix prefix (lines ! i) \<and> kept prefix ign (lines ! i)")
  case False
  then have "elemIter lines prefix ign i els = (i + 1, els)"
    by (intro elemIter_skip) simp
  then show ?thesis using assms by simp
next
  case True
  let ?n = "length (takeWhile (hasDocPrefix prefix) (drop i lines))"
  have "?n \<le> length (drop i lines)" by (rule length_takeWhile_le)
  then have "i + ?n \<le> length lines" using assms by simp
  then have "snd (captureSig lines (skipLoop lines prefix (i + ?n))) \<le> length lines"
    by (intro captureSig_bound skipLoop_bound)
  then show ?thesis using True by (simp add: elemIter_emit [OF assms])
qed

lemma elementsLoop_rest: "snd (elementsLoop lines prefix ign i els) = []"
proof (induction lines prefix ign i els rule: elementsLoop.induct)
  case (1 lines prefix ign i els)
  show ?case
  proof (cases "i < length lines")
    case True
    then show ?thesis using 1 [OF True refl] by (subst elementsLoop.simps) (simp add: Let_def)
  next
    case False
    then show ?thesis by (subst elementsLoop.simps) simp
  qed
qed

text \<open>
  Claim C10. \<^verbatim>\<open>extractElements\<close> terminates on every input: the outer loop is a
  total function whose every turn, entered with \<open>i < length lines\<close>, leaves the index
  strictly larger and at most \<open>length lines\<close>. The buffer collected after the prefix
  test has passed is never empty, so the turn that would leave the index where it was
  does not happen; the loop is left with the input exhausted.
\<close>

theorem extractElements_progress:
  "(i < length lines \<longrightarrow>
      i < fst (elemIter lines prefix ign i els) \<and>
      fst (elemIter lines prefix ign i els) \<le> length lines \<and>
      elementsLoop lines prefix ign i els =
        elementsLoop lines prefix ign (fst (elemIter lines prefix ign i els))
          (snd (elemIter lines prefix ign i els))) \<and>
   (i < length lines \<and> hasDocPrefix prefix (lines ! i) \<longrightarrow>
      snd (collectLoop lines prefix i []) \<noteq> [] \<and> i < fst (collectLoop lines prefix i [])) \<and>
   (length lines \<le> i \<longrightarrow> elementsLoop lines prefix ign i els = (els, [])) \<and>
   snd (extractElements lines prefix ign) = []"
proof (intro conjI impI)
  assume a: "i < length lines"
  show "i < fst (elemIter lines prefix ign i els)" by (rule elemIter_advances [OF a])
  show "fst (elemIter lines prefix ign i els) \<le> length lines" by (rule elemIter_bound [OF a])
  show "elementsLoop lines prefix ign i els =
        elementsLoop lines prefix ign (fst (elemIter lines prefix ign i els))
          (snd (elemIter lines prefix ign i els))"
    using a by (subst elementsLoop.simps) (simp add: Let_def)
next
  assume a: "i < length lines \<and> hasDocPrefix prefix (lines ! i)"
  then show "snd (collectLoop lines prefix i []) \<noteq> []"
    by (intro collectLoop_nonempty) simp_all
  from a show "i < fst (collectLoop lines prefix i [])"
    by (intro collectLoop_nonempty) simp_all
next
  assume "length lines \<le> i"
  then show "elementsLoop lines prefix ign i els = (els, [])"
    by (subst elementsLoop.simps) simp
next
  show "snd (extractElements lines prefix ign) = []"
    by (simp add: extractElements_def elementsLoop_rest)
qed

theorem extractElements_progress_witness:
  "(0::nat) < length [''/// a'', ''x'', ''y'']
   \<and> hasDocPrefix ''///'' ([''/// a'', ''x'', ''y''] ! 0)
   \<and> fst (elemIter [''/// a'', ''x'', ''y''] ''///'' False 0 []) = 2
   \<and> snd (collectLoop [''/// a'', ''x'', ''y''] ''///'' 0 []) \<noteq> []
   \<and> elementsLoop [''/// a'', ''x'', ''y''] ''///'' False 3 [] = ([], [])"
proof -
  have h1: "(0::nat) < length [''/// a'', ''x'', ''y'']" by simp
  have h2: "hasDocPrefix ''///'' ([''/// a'', ''x'', ''y''] ! 0)" by code_simp
  have h3: "fst (elemIter [''/// a'', ''x'', ''y''] ''///'' False 0 []) = 2" by code_simp
  have h4: "length [''/// a'', ''x'', ''y''] \<le> (3::nat)" by simp
  from extractElements_progress [of 0 "[''/// a'', ''x'', ''y'']" "''///''" False "[]"] h1 h2
  have "snd (collectLoop [''/// a'', ''x'', ''y''] ''///'' 0 []) \<noteq> []" by blast
  moreover from extractElements_progress [of 3 "[''/// a'', ''x'', ''y'']" "''///''" False "[]"] h4
  have "elementsLoop [''/// a'', ''x'', ''y''] ''///'' False 3 [] = ([], [])" by blast
  ultimately show ?thesis using h1 h2 h3 by blast
qed

section \<open>The signature\<close>

lemma braceAt_iff:
  "braceAt s \<longleftrightarrow> s \<noteq> [] \<and> last s = CHR ''{'' \<and> (\<forall>c \<in> set (butlast s). reSpace c)"
proof (induction s)
  case Nil
  show ?case by (simp add: braceAt_def)
next
  case (Cons c cs)
  have nb: "\<not> reSpace (CHR ''{'')" by (simp add: reSpace_def)
  show ?case
  proof (cases "reSpace c")
    case True
    then have "c \<noteq> CHR ''{''" using nb by auto
    with True Cons show ?thesis by (auto simp: braceAt_def)
  next
    case False
    then show ?thesis by (auto simp: braceAt_def)
  qed
qed

lemma replaceBrace_eq: "replaceBrace s = stripTrailingBrace s"
proof (induction s)
  case Nil
  show ?case by (simp add: stripTrailingBrace_def)
next
  case (Cons c cs)
  show ?case
  proof (cases "braceAt (c # cs)")
    case True
    then have "last (c # cs) = CHR ''{''" and "\<forall>x \<in> set (butlast (c # cs)). reSpace x"
      unfolding braceAt_iff by blast+
    then have "stripTrailingBrace (c # cs) = []"
      unfolding stripTrailingBrace_def by (simp del: butlast.simps last.simps)
    with True show ?thesis by simp
  next
    case nb: False
    show ?thesis
    proof (cases "cs \<noteq> [] \<and> last cs = CHR ''{''")
      case False
      then have "stripTrailingBrace cs = cs" by (auto simp: stripTrailingBrace_def)
      moreover have "stripTrailingBrace (c # cs) = c # cs"
      proof (cases "cs = []")
        case True
        with nb have "c \<noteq> CHR ''{''" by (auto simp: braceAt_iff)
        with True show ?thesis by (simp add: stripTrailingBrace_def)
      next
        case ne: False
        with False show ?thesis by (simp add: stripTrailingBrace_def)
      qed
      ultimately show ?thesis using nb Cons by simp
    next
      case True
      then have ne: "cs \<noteq> []" and l: "last cs = CHR ''{''" by simp_all
      have sc: "stripTrailingBrace (c # cs) =
                rev (dropWhile reSpace (rev (butlast cs) @ [c]))"
        using ne l by (simp add: stripTrailingBrace_def)
      have scs: "stripTrailingBrace cs = rev (dropWhile reSpace (rev (butlast cs)))"
        using ne l by (simp add: stripTrailingBrace_def)
      show ?thesis
      proof (cases "\<forall>x \<in> set (butlast cs). reSpace x")
        case all: True
        then have b: "braceAt cs" using ne l by (simp add: braceAt_iff)
        have "\<not> reSpace c" using nb all ne l by (auto simp: braceAt_iff)
        then have "dropWhile reSpace (rev (butlast cs) @ [c]) = [c]"
          using all by (subst dropWhile_append2) auto
        moreover have "replaceBrace cs = []" using b ne by (cases cs) simp_all
        ultimately show ?thesis using nb sc by simp
      next
        case False
        then have "\<exists>x \<in> set (rev (butlast cs)). \<not> reSpace x" by simp
        then have "dropWhile reSpace (rev (butlast cs) @ [c]) =
                   dropWhile reSpace (rev (butlast cs)) @ [c]"
          by (auto simp: dropWhile_append1)
        then show ?thesis using nb sc scs Cons by simp
      qed
    qed
  qed
qed

text \<open>
  Claim C5. At every position \<open>i\<close> of every input: when line \<open>i\<close> exists and is not
  blank, the signature is that line trimmed, with a trailing run of white space
  followed by one opening brace removed, and the index moves by one; when the line is
  blank or the input is exhausted, the signature is empty and the index stays. A turn
  of \<^verbatim>\<open>extractElements\<close> that emits stores this signature in its element and
  continues from this index.
\<close>

theorem captureSig_result:
  "(i < length lines \<and> \<not> blankLine (lines ! i) \<longrightarrow>
      captureSig lines i = (stripTrailingBrace (strings_TrimSpace (lines ! i)), i + 1)) \<and>
   (length lines \<le> i \<or> blankLine (lines ! i) \<longrightarrow> captureSig lines i = ([], i)) \<and>
   (j < length lines \<and> hasDocPrefix prefix (lines ! j) \<and> kept prefix ign (lines ! j) \<and>
    i = skipLoop lines prefix (fst (collectLoop lines prefix j [])) \<longrightarrow>
      fst (elemIter lines prefix ign j els) = snd (captureSig lines i) \<and>
      Signature (last (snd (elemIter lines prefix ign j els))) = fst (captureSig lines i))"
proof (intro conjI impI)
  assume "i < length lines \<and> \<not> blankLine (lines ! i)"
  then show "captureSig lines i = (stripTrailingBrace (strings_TrimSpace (lines ! i)), i + 1)"
    by (simp add: captureSig_def blankLine_def replaceBrace_eq)
next
  assume "length lines \<le> i \<or> blankLine (lines ! i)"
  then show "captureSig lines i = ([], i)"
    by (auto simp: captureSig_def blankLine_def)
next
  assume a: "j < length lines \<and> hasDocPrefix prefix (lines ! j) \<and> kept prefix ign (lines ! j) \<and>
    i = skipLoop lines prefix (fst (collectLoop lines prefix j []))"
  then have e: "elemIter lines prefix ign j els =
     (snd (captureSig lines i),
      els @ [newElement (length els)
               (strings_Join (map (content prefix)
                  (takeWhile (hasDocPrefix prefix) (drop j lines))) [CHR 0x0A])
               (fst (captureSig lines i))])"
    using elemIter_emit [of j lines prefix ign els] by (simp add: collectLoop_eq)
  show "fst (elemIter lines prefix ign j els) = snd (captureSig lines i)"
    by (simp add: e)
  show "Signature (last (snd (elemIter lines prefix ign j els))) = fst (captureSig lines i)"
    by (simp add: e newElement_def)
qed

theorem captureSig_result_witness:
  "(1::nat) < length [''/// a'', '' int f() {  '', '''']
   \<and> \<not> blankLine ([''/// a'', '' int f() {  '', ''''] ! 1)
   \<and> captureSig [''/// a'', '' int f() {  '', ''''] 1 = (''int f()'', 2)
   \<and> blankLine ([''/// a'', '' int f() {  '', ''''] ! 2)
   \<and> captureSig [''/// a'', '' int f() {  '', ''''] 2 = ([], 2)
   \<and> Signature (last (snd (elemIter [''/// a'', '' int f() {  '', ''''] ''///'' True 0 [])))
       = ''int f()''"
proof -
  let ?ls = "[''/// a'', '' int f() {  '', '''']"
  have h1: "(1::nat) < length ?ls \<and> \<not> blankLine (?ls ! 1)" by code_simp
  have h2: "length ?ls \<le> (2::nat) \<or> blankLine (?ls ! 2)" by code_simp
  have h2': "blankLine (?ls ! 2)" by code_simp
  have h3: "(0::nat) < length ?ls \<and> hasDocPrefix ''///'' (?ls ! 0) \<and> kept ''///'' True (?ls ! 0) \<and>
     (1::nat) = skipLoop ?ls ''///'' (fst (collectLoop ?ls ''///'' 0 []))" by code_simp
  have v: "stripTrailingBrace (strings_TrimSpace (?ls ! 1)) = ''int f()''" by code_simp
  note t1 = captureSig_result [of 1 ?ls 0 "''///''" True "[]"]
  note t2 = captureSig_result [of 2 ?ls 0 "''///''" True "[]"]
  have c1: "captureSig ?ls 1 = (''int f()'', 2)" using t1 h1 v by simp
  have c2: "captureSig ?ls 2 = ([], 2)" using t2 h2 by blast
  have c3: "Signature (last (snd (elemIter ?ls ''///'' True 0 []))) = fst (captureSig ?ls 1)"
    using t1 h3 by blast
  show ?thesis using h1 h2' c1 c2 c3 by simp
qed

section \<open>Backlinks\<close>

text \<open>
  Claim C7. \<^verbatim>\<open>ProcessBacklinks\<close> is not idempotent: with the index that maps
  \<^verbatim>\<open>add\<close> to \<^verbatim>\<open>math.md#add\<close>, the description \<^verbatim>\<open>See [add].\<close> becomes
  \<^verbatim>\<open>See [add](math.md#add).\<close>, and a second pass over that output matches the
  bracketed token again and appends the location a second time.
\<close>

theorem ProcessBacklinks_not_idempotent:
  "(\<exists>desc linkIndex prefix.
      ProcessBacklinks (ProcessBacklinks desc linkIndex prefix) linkIndex prefix \<noteq>
      ProcessBacklinks desc linkIndex prefix) \<and>
   ProcessBacklinks ''See [add].'' [''add'' \<mapsto> ''math.md#add''] ''///'' =
     ''See [add](math.md#add).'' \<and>
   ProcessBacklinks ''See [add](math.md#add).'' [''add'' \<mapsto> ''math.md#add''] ''///'' =
     ''See [add](math.md#add)(math.md#add).''"
proof -
  have a: "ProcessBacklinks ''See [add].'' [''add'' \<mapsto> ''math.md#add''] ''///'' =
     ''See [add](math.md#add).''"
    by code_simp
  have b: "ProcessBacklinks ''See [add](math.md#add).'' [''add'' \<mapsto> ''math.md#add''] ''///'' =
     ''See [add](math.md#add)(math.md#add).''"
    by code_simp
  have "ProcessBacklinks (ProcessBacklinks ''See [add].'' [''add'' \<mapsto> ''math.md#add''] ''///'')
          [''add'' \<mapsto> ''math.md#add''] ''///'' \<noteq>
        ProcessBacklinks ''See [add].'' [''add'' \<mapsto> ''math.md#add''] ''///''"
    unfolding a b by simp
  then show ?thesis using a b by blast
qed

section \<open>Runs, elements and the indentation policy\<close>



lemma elementsLoop_skips:
  assumes "list_all (\<lambda>l. \<not> hasDocPrefix prefix l \<or> \<not> kept prefix ign l) pre"
  shows "elementsLoop (pre @ ls) prefix ign 0 els = elementsLoop ls prefix ign 0 els"
  using assms by (induction pre) (simp_all add: elementsLoop_skip)




lemma elementsLoop_emit_sig:
  assumes "hasDocPrefix prefix l" and "kept prefix ign l"
    and "dropWhile (gapLine prefix) (dropWhile (hasDocPrefix prefix) (l # ls)) = s # rest"
  shows "elementsLoop (l # ls) prefix ign 0 els =
     elementsLoop rest prefix ign 0
       (els @ [newElement (length els)
                 (strings_Join (map (content prefix)
                    (takeWhile (hasDocPrefix prefix) (l # ls))) [CHR 0x0A])
                 (replaceBrace (strings_TrimSpace s))])"
  unfolding elementsLoop_emit [OF assms(1,2)] Let_def assms(3) by (simp only: list.case)






section \<open>Pairs of a comment run and a signature\<close>

lemma takeWhile_run:
  "list_all P xs \<Longrightarrow> \<not> P y \<Longrightarrow> takeWhile P (xs @ y # ys) = xs"
  by (induction xs) auto

lemma dropWhile_run:
  "list_all P xs \<Longrightarrow> \<not> P y \<Longrightarrow> dropWhile P (xs @ y # ys) = y # ys"
  by (induction xs) auto

lemma elementsLoop_pair:
  assumes "goodPair prefix ign (filler, run, sigLine)"
  shows "elementsLoop (filler @ run @ [sigLine] @ rest) prefix ign 0 els =
     elementsLoop rest prefix ign 0
       (els @ [newElement (length els) (strings_Join (map (content prefix) run) [CHR 0x0A])
                 (replaceBrace (strings_TrimSpace sigLine))])"
proof -
  from assms have f: "list_all (\<lambda>l. \<not> hasDocPrefix prefix l \<or> \<not> kept prefix ign l) filler"
    and ne: "run \<noteq> []" and r: "list_all (hasDocPrefix prefix) run"
    and k: "kept prefix ign (hd run)"
    and s: "\<not> blankLine sigLine" "\<not> hasDocPrefix prefix sigLine"
    by (simp_all add: goodPair_def)
  from ne obtain l run' where run: "run = l # run'" by (cases run) auto
  have l: "hasDocPrefix prefix l" "kept prefix ign l" using r k run by simp_all
  have tw: "takeWhile (hasDocPrefix prefix) (l # run' @ sigLine # rest) = run"
    using takeWhile_run [OF r s(2), of rest] run by simp
  have dw: "dropWhile (hasDocPrefix prefix) (l # run' @ sigLine # rest) = sigLine # rest"
    using dropWhile_run [OF r s(2), of rest] run by simp
  have g: "dropWhile (gapLine prefix) (dropWhile (hasDocPrefix prefix)
             (l # run' @ sigLine # rest)) = sigLine # rest"
    unfolding dw using s by (simp add: gapLine_def)
  have "elementsLoop (filler @ run @ [sigLine] @ rest) prefix ign 0 els =
        elementsLoop (l # run' @ sigLine # rest) prefix ign 0 els"
    using elementsLoop_skips [OF f] run by simp
  also have "\<dots> = elementsLoop rest prefix ign 0
       (els @ [newElement (length els)
                 (strings_Join (map (content prefix)
                    (takeWhile (hasDocPrefix prefix) (l # run' @ sigLine # rest))) [CHR 0x0A])
                 (replaceBrace (strings_TrimSpace sigLine))])"
    by (rule elementsLoop_emit_sig [OF l g])
  finally show ?thesis unfolding tw .
qed

lemma elementsLoop_pairs:
  assumes "list_all (goodPair prefix ign) pairs"
    and "list_all (\<lambda>l. \<not> hasDocPrefix prefix l \<or> \<not> kept prefix ign l) tail"
  shows "fst (elementsLoop (pairsInput pairs tail) prefix ign 0 els) =
         els @ pairElements prefix (length els) pairs"
  using assms(1)
proof (induction pairs arbitrary: els)
  case Nil
  have "elementsLoop (tail @ []) prefix ign 0 els = elementsLoop [] prefix ign 0 els"
    by (rule elementsLoop_skips [OF assms(2)])
  then show ?case by (simp add: elementsLoop_Nil)
next
  case (Cons pair pairs)
  obtain filler run sigLine where p: "pair = (filler, run, sigLine)" by (cases pair)
  from Cons.prems p have g: "goodPair prefix ign (filler, run, sigLine)"
    and gs: "list_all (goodPair prefix ign) pairs" by simp_all
  show ?case
    unfolding p pairsInput.simps elementsLoop_pair [OF g] Cons.IH [OF gs]
    by simp
qed

lemma map_Description_pairElements:
  "map Description (pairElements prefix k pairs) =
   map (\<lambda>(filler, run, sigLine). strings_Join (map (content prefix) run) [CHR 0x0A]) pairs"
  by (induction prefix k pairs rule: pairElements.induct) (simp_all add: newElement_def)

lemma map_Signature_pairElements:
  "map Signature (pairElements prefix k pairs) =
   map (\<lambda>(filler, run, sigLine). stripTrailingBrace (strings_TrimSpace sigLine)) pairs"
  by (induction prefix k pairs rule: pairElements.induct)
     (simp_all add: newElement_def replaceBrace_eq)

lemma length_pairElements: "length (pairElements prefix k pairs) = length pairs"
  by (induction prefix k pairs rule: pairElements.induct) simp_all

text \<open>
  Claim C1, as the code has it. For every input made of N pairs of a comment run and
  a signature line, with lines between them that the search for a run steps over
  (lines without the prefix and, under the indentation policy, indented comment
  lines), where the first line of each run is one the policy keeps,
  \<^verbatim>\<open>extractElements\<close> returns exactly N Elements in source order: the k-th has the
  k-th run's contents joined with line feeds as its description and the k-th signature
  line, trimmed and without its trailing brace, as its signature.
\<close>

theorem extractElements_pairs:
  "list_all (goodPair prefix ign) pairs \<and>
   list_all (\<lambda>l. \<not> hasDocPrefix prefix l \<or> \<not> kept prefix ign l) tail \<longrightarrow>
     length (fst (extractElements (pairsInput pairs tail) prefix ign)) = length pairs \<and>
     map Description (fst (extractElements (pairsInput pairs tail) prefix ign)) =
       map (\<lambda>(filler, run, sigLine). strings_Join (map (content prefix) run) [CHR 0x0A]) pairs \<and>
     map Signature (fst (extractElements (pairsInput pairs tail) prefix ign)) =
       map (\<lambda>(filler, run, sigLine). stripTrailingBrace (strings_TrimSpace sigLine)) pairs"
proof
  assume a: "list_all (goodPair prefix ign) pairs \<and>
   list_all (\<lambda>l. \<not> hasDocPrefix prefix l \<or> \<not> kept prefix ign l) tail"
  then have "fst (extractElements (pairsInput pairs tail) prefix ign) =
             pairElements prefix 0 pairs"
    using elementsLoop_pairs [of prefix ign pairs tail "[]"] by (simp add: extractElements_def)
  then show "length (fst (extractElements (pairsInput pairs tail) prefix ign)) = length pairs \<and>
     map Description (fst (extractElements (pairsInput pairs tail) prefix ign)) =
       map (\<lambda>(filler, run, sigLine). strings_Join (map (content prefix) run) [CHR 0x0A]) pairs \<and>
     map Signature (fst (extractElements (pairsInput pairs tail) prefix ign)) =
       map (\<lambda>(filler, run, sigLine). stripTrailingBrace (strings_TrimSpace sigLine)) pairs"
    by (simp only: length_pairElements map_Description_pairElements map_Signature_pairElements)
qed

theorem extractElements_pairs_witness:
  "list_all (goodPair ''///'' True)
     [([''  /// skipped'', ''code''], [''/// a'', ''  /// b''], ''int f() {''),
      ([], [''/// c''], ''class W'')]
   \<and> list_all (\<lambda>l. \<not> hasDocPrefix ''///'' l \<or> \<not> kept ''///'' True l) [''}'']
   \<and> map Description (fst (extractElements
        [''  /// skipped'', ''code'', ''/// a'', ''  /// b'', ''int f() {'', ''/// c'',
         ''class W'', ''}''] ''///'' True)) = [''a'' @ [CHR 0x0A] @ ''b'', ''c'']
   \<and> map Signature (fst (extractElements
        [''  /// skipped'', ''code'', ''/// a'', ''  /// b'', ''int f() {'', ''/// c'',
         ''class W'', ''}''] ''///'' True)) = [''int f()'', ''class W'']"
proof -
  let ?pairs = "[([''  /// skipped'', ''code''], [''/// a'', ''  /// b''], ''int f() {''),
      ([], [''/// c''], ''class W'')]"
  have h: "list_all (goodPair ''///'' True) ?pairs
     \<and> list_all (\<lambda>l. \<not> hasDocPrefix ''///'' l \<or> \<not> kept ''///'' True l) [''}'']"
    by code_simp
  have i: "pairsInput ?pairs [''}''] =
     [''  /// skipped'', ''code'', ''/// a'', ''  /// b'', ''int f() {'', ''/// c'',
         ''class W'', ''}'']"
    by simp
  have d: "map (\<lambda>(filler, run, sigLine). strings_Join (map (content ''///'') run) [CHR 0x0A])
             ?pairs = [''a'' @ [CHR 0x0A] @ ''b'', ''c'']"
    by code_simp
  have g: "map (\<lambda>(filler, run, sigLine). stripTrailingBrace (strings_TrimSpace sigLine))
             ?pairs = [''int f()'', ''class W'']"
    by code_simp
  from extractElements_pairs [of "''///''" True ?pairs "[''}'']"] h
  show ?thesis unfolding i d g by blast
qed

text \<open>
  Claim C1 as stated fails under the indentation policy: a run of one indented comment
  line followed by a signature line is a pair, and no Element comes out of it; when
  the indented line opens a longer run, the description misses it.
\<close>

theorem extractElements_pairs_counterexample:
  "hasDocPrefix ''///'' ''  /// a'' \<and> \<not> blankLine ''int f()''
   \<and> fst (extractElements [''  /// a'', ''int f()''] ''///'' True) = []
   \<and> map Description (fst (extractElements [''  /// a'', ''/// b'', ''int f()''] ''///'' True))
       = [''b'']"
  by code_simp

section \<open>The indentation policy at the two places\<close>



lemma extractTopComment_eq:
  "extractTopComment lines prefix ign =
     (strings_Join
        (map (content prefix)
           (filter (kept prefix ign) (takeWhile (hasDocPrefix prefix) lines)))
        [CHR 0x0A],
      dropWhile (hasDocPrefix prefix) lines)"
  by (simp add: extractTopComment_def topLoop_eq drop_length_takeWhile)




section \<open>The lines of a description\<close>

lemma TrimLeft_suffix: "\<exists>a. s = a @ TrimLeft s"
proof (induction s rule: TrimLeft.induct)
  case (1 s)
  show ?case
  proof (cases "leadSpace s = 0")
    case True
    then show ?thesis by (simp add: TrimLeft.simps)
  next
    case False
    then have e: "TrimLeft s = TrimLeft (drop (leadSpace s) s)"
      by (subst TrimLeft.simps) simp
    from 1 [OF False] obtain a where "drop (leadSpace s) s = a @ TrimLeft (drop (leadSpace s) s)"
      by blast
    then have "s = (take (leadSpace s) s @ a) @ TrimLeft s"
      unfolding e by (metis append_assoc append_take_drop_id)
    then show ?thesis by blast
  qed
qed

lemma TrimRight_prefix: "\<exists>b. s = TrimRight s @ b"
proof (induction s rule: TrimRight.induct)
  case (1 s)
  show ?case
  proof (cases "tailSpace s = 0")
    case True
    then show ?thesis by (simp add: TrimRight.simps)
  next
    case False
    then have e: "TrimRight s = TrimRight (take (length s - tailSpace s) s)"
      by (subst TrimRight.simps) simp
    from 1 [OF False] obtain b where
      "take (length s - tailSpace s) s = TrimRight (take (length s - tailSpace s) s) @ b"
      by blast
    then have "s = TrimRight s @ (b @ drop (length s - tailSpace s) s)"
      unfolding e by (metis append_assoc append_take_drop_id)
    then show ?thesis by blast
  qed
qed

lemma TrimSpace_slice: "\<exists>a b. s = a @ strings_TrimSpace s @ b"
proof -
  obtain a where a: "s = a @ TrimLeft s" using TrimLeft_suffix by blast
  obtain b where b: "TrimLeft s = TrimRight (TrimLeft s) @ b" using TrimRight_prefix by blast
  have "s = a @ strings_TrimSpace s @ b"
    unfolding strings_TrimSpace_def using a b by metis
  then show ?thesis by blast
qed

lemma content_of_trimmed:
  assumes "hasDocPrefix prefix line"
  shows "strings_TrimSpace line =
     prefix @
     (if strings_HasPrefix (drop (length prefix) (strings_TrimSpace line)) '' ''
      then '' '' else []) @
     content prefix line"
proof -
  let ?t = "strings_TrimSpace line"
  let ?c = "drop (length prefix) ?t"
  have p: "take (length prefix) ?t = prefix"
    using assms by (simp add: hasDocPrefix_def strings_HasPrefix_def)
  have t: "?t = prefix @ ?c" using p by (metis append_take_drop_id)
  show ?thesis
  proof (cases "strings_HasPrefix ?c '' ''")
    case True
    then obtain c' where c: "?c = CHR '' '' # c'"
      by (cases ?c) (auto simp: strings_HasPrefix_def)
    then have "content prefix line = c'" by (simp add: content_def stripContent_def)
    with True t c show ?thesis by simp
  next
    case False
    then have "content prefix line = ?c"
      by (cases ?c) (auto simp: content_def stripContent_def strings_HasPrefix_def)
    with False t show ?thesis by simp
  qed
qed

text \<open>
  Claim C8, as the code has it. Every line stored in a module description or in an
  element description is \<open>content prefix line\<close> of a collected source line: the line
  is first trimmed of its leading and trailing white space, then the prefix and at
  most one following space are removed. What is stored is the rest of the trimmed
  line, byte for byte, so white space inside the line is kept and white space at its
  end is not; the trimmed line is a contiguous piece of the source line.
\<close>

theorem description_lines:
  "fst (extractTopComment lines prefix ign) =
     strings_Join (map (content prefix)
        (filter (kept prefix ign) (takeWhile (hasDocPrefix prefix) lines))) [CHR 0x0A] \<and>
   (i < length lines \<and> hasDocPrefix prefix (lines ! i) \<and> kept prefix ign (lines ! i) \<longrightarrow>
      Description (last (snd (elemIter lines prefix ign i els))) =
        strings_Join (map (content prefix)
           (takeWhile (hasDocPrefix prefix) (drop i lines))) [CHR 0x0A]) \<and>
   (hasDocPrefix prefix line \<longrightarrow>
      strings_TrimSpace line =
        prefix @
        (if strings_HasPrefix (drop (length prefix) (strings_TrimSpace line)) '' ''
         then '' '' else []) @
        content prefix line) \<and>
   (\<exists>a b. line = a @ strings_TrimSpace line @ b)"
proof (intro conjI impI)
  show "fst (extractTopComment lines prefix ign) =
     strings_Join (map (content prefix)
        (filter (kept prefix ign) (takeWhile (hasDocPrefix prefix) lines))) [CHR 0x0A]"
    by (simp add: extractTopComment_eq)
next
  assume "i < length lines \<and> hasDocPrefix prefix (lines ! i) \<and> kept prefix ign (lines ! i)"
  then show "Description (last (snd (elemIter lines prefix ign i els))) =
        strings_Join (map (content prefix)
           (takeWhile (hasDocPrefix prefix) (drop i lines))) [CHR 0x0A]"
    by (simp add: elemIter_emit newElement_def)
next
  assume "hasDocPrefix prefix line"
  then show "strings_TrimSpace line =
        prefix @
        (if strings_HasPrefix (drop (length prefix) (strings_TrimSpace line)) '' ''
         then '' '' else []) @
        content prefix line"
    by (rule content_of_trimmed)
next
  show "\<exists>a b. line = a @ strings_TrimSpace line @ b" by (rule TrimSpace_slice)
qed

theorem description_lines_witness:
  "(0::nat) < length [''  ///  a  b  '', ''x'']
   \<and> hasDocPrefix ''///'' ''  ///  a  b  '' \<and> kept ''///'' False ''  ///  a  b  ''
   \<and> Description (last (snd (elemIter [''  ///  a  b  '', ''x''] ''///'' False 0 []))) = '' a  b''
   \<and> strings_TrimSpace ''  ///  a  b  '' = ''///'' @ '' '' @ content ''///'' ''  ///  a  b  ''
   \<and> content ''///'' ''  ///  a  b  '' = '' a  b''"
proof -
  have h: "(0::nat) < length [''  ///  a  b  '', ''x''] \<and>
           hasDocPrefix ''///'' ([''  ///  a  b  '', ''x''] ! 0) \<and>
           kept ''///'' False ([''  ///  a  b  '', ''x''] ! 0)"
    by code_simp
  have h': "hasDocPrefix ''///'' ''  ///  a  b  '' \<and> kept ''///'' False ''  ///  a  b  ''"
    by code_simp
  have v: "strings_Join (map (content ''///'')
             (takeWhile (hasDocPrefix ''///'') (drop 0 [''  ///  a  b  '', ''x'']))) [CHR 0x0A]
           = '' a  b''"
    by code_simp
  have s: "strings_HasPrefix (drop (length ''///'') (strings_TrimSpace ''  ///  a  b  '')) '' ''"
    by code_simp
  have c: "content ''///'' ''  ///  a  b  '' = '' a  b''" by code_simp
  note t = description_lines [of "[''  ///  a  b  '', ''x'']" "''///''" False 0 "[]"
      "''  ///  a  b  ''"]
  have c1: "Description (last (snd (elemIter [''  ///  a  b  '', ''x''] ''///'' False 0 [])))
            = '' a  b''"
    using t h v by simp
  have c2: "strings_TrimSpace ''  ///  a  b  '' =
            ''///'' @ '' '' @ content ''///'' ''  ///  a  b  ''"
    using t h' s by simp
  show ?thesis using h h' c c1 c2 by simp
qed

text \<open>
  Claim C8 as stated fails: the white space at the end of a comment line is not
  stored, in a module description or in an element description.
\<close>

theorem description_lines_counterexample:
  "fst (extractTopComment [''/// abc  ''] ''///'' False) = ''abc''
   \<and> fst (extractTopComment [''/// abc  ''] ''///'' False) \<noteq> ''abc  ''
   \<and> map Description (fst (extractElements [''/// abc  '', ''x''] ''///'' False)) = [''abc'']"
  by code_simp

section \<open>The identifier of a signature\<close>

lemma reWord_not_reSpace: "reWord c \<Longrightarrow> \<not> reSpace c"
  by (auto simp: reWord_def reSpace_def Let_def)

lemma reWord_not_paren: "\<not> reWord (CHR ''('')"
  by (simp add: reWord_def)

lemma reSpace_not_paren: "\<not> reSpace (CHR ''('')"
  by (simp add: reSpace_def)

lemma takeWhile_all_then:
  "list_all P xs \<Longrightarrow> (ys = [] \<or> \<not> P (hd ys)) \<Longrightarrow> takeWhile P (xs @ ys) = xs"
  by (induction xs) (auto simp: takeWhile_eq_Nil_iff)

lemma dropWhile_all_then:
  "list_all P xs \<Longrightarrow> (ys = [] \<or> \<not> P (hd ys)) \<Longrightarrow> dropWhile P (xs @ ys) = ys"
  by (induction xs) (auto simp: dropWhile_eq_self_iff)

lemma keywordAt_match:
  assumes "ws \<noteq> []" and "list_all reSpace ws" and "w \<noteq> []" and "list_all reWord w"
    and "rest = [] \<or> \<not> reWord (hd rest)"
  shows "keywordAt kw (kw @ ws @ w @ rest) = Some w"
proof -
  have hw: "\<not> reSpace (hd (w @ rest))"
    using assms(3,4) by (cases w) (auto dest: reWord_not_reSpace)
  have ne: "w @ rest \<noteq> []" using assms(3) by simp
  have t: "takeWhile reSpace (ws @ w @ rest) = ws"
    using takeWhile_all_then [OF assms(2), of "w @ rest"] hw by simp
  have d: "dropWhile reSpace (ws @ w @ rest) = w @ rest"
    using dropWhile_all_then [OF assms(2), of "w @ rest"] hw by simp
  have tw: "takeWhile reWord (w @ rest) = w"
    by (rule takeWhile_all_then [OF assms(4,5)])
  show ?thesis
    using assms(1,3) by (simp add: keywordAt_def strings_HasPrefix_def t d tw)
qed

lemma classMatch_match:
  assumes "kw = ''class'' \<or> kw = ''struct''"
    and "ws \<noteq> []" and "list_all reSpace ws" and "w \<noteq> []" and "list_all reWord w"
    and "rest = [] \<or> \<not> reWord (hd rest)"
  shows "classMatch (kw @ ws @ w @ rest) = Some w"
proof -
  note k = keywordAt_match [OF assms(2-6)]
  from assms(1) show ?thesis
  proof
    assume "kw = ''class''"
    then show ?thesis using k [of kw] by (simp add: classMatch_def)
  next
    assume s: "kw = ''struct''"
    have "keywordAt ''class'' (''struct'' @ ws @ w @ rest) = None"
      by (simp add: keywordAt_def strings_HasPrefix_def)
    then show ?thesis using k [of kw] s by (simp add: classMatch_def)
  qed
qed

lemma funcAt_iff:
  "funcAt s = Some w \<longleftrightarrow>
     (\<exists>ws rest. s = w @ ws @ CHR ''('' # rest \<and> w \<noteq> [] \<and> list_all reWord w \<and>
                 list_all reSpace ws)"
proof
  assume a: "funcAt s = Some w"
  let ?r = "dropWhile reSpace (dropWhile reWord s)"
  from a obtain rest where r: "?r = CHR ''('' # rest" and w: "w = takeWhile reWord s" "w \<noteq> []"
    by (auto simp: funcAt_def Let_def split: list.splits if_splits)
  have "s = takeWhile reWord s @ takeWhile reSpace (dropWhile reWord s) @ ?r"
    by simp
  then have "s = w @ takeWhile reSpace (dropWhile reWord s) @ CHR ''('' # rest"
    using r w by simp
  moreover have "list_all reWord w" unfolding w(1) list_all_iff by (auto dest: set_takeWhileD)
  moreover have "list_all reSpace (takeWhile reSpace (dropWhile reWord s))"
    unfolding list_all_iff by (auto dest: set_takeWhileD)
  ultimately show "\<exists>ws rest. s = w @ ws @ CHR ''('' # rest \<and> w \<noteq> [] \<and> list_all reWord w \<and>
                 list_all reSpace ws"
    using w(2) by blast
next
  assume "\<exists>ws rest. s = w @ ws @ CHR ''('' # rest \<and> w \<noteq> [] \<and> list_all reWord w \<and>
                 list_all reSpace ws"
  then obtain ws rest where s: "s = w @ ws @ CHR ''('' # rest" and w: "w \<noteq> []"
    "list_all reWord w" and ws: "list_all reSpace ws"
    by blast
  have h1: "ws @ CHR ''('' # rest = [] \<or> \<not> reWord (hd (ws @ CHR ''('' # rest))"
    using ws by (cases ws) (auto simp: reWord_not_paren dest: reWord_not_reSpace)
  have h2: "CHR ''('' # rest = [] \<or> \<not> reSpace (hd (CHR ''('' # rest))"
    by (simp add: reSpace_not_paren)
  have t: "takeWhile reWord s = w"
    unfolding s by (rule takeWhile_all_then [OF w(2) h1])
  have d: "dropWhile reWord s = ws @ CHR ''('' # rest"
    unfolding s by (rule dropWhile_all_then [OF w(2) h1])
  have d2: "dropWhile reSpace (ws @ CHR ''('' # rest) = CHR ''('' # rest"
    by (rule dropWhile_all_then [OF ws h2])
  show "funcAt s = Some w"
    using w(1) by (simp add: funcAt_def t d d2)
qed

lemma list_all_upt: "list_all P [0..<n] \<longleftrightarrow> (\<forall>k<n. P k)"
  by (auto simp: list_all_iff)

lemma funcMatch_later:
  assumes "list_all (\<lambda>k. funcAt (drop k (pre @ s)) = None) [0..<length pre]"
  shows "funcMatch (pre @ s) = funcMatch s"
proof -
  have "\<forall>k<length pre. funcAt (drop k (pre @ s)) = None \<Longrightarrow>
        funcMatch (pre @ s) = funcMatch s"
  proof (induction pre)
    case Nil
    show ?case by simp
  next
    case (Cons c pre)
    from Cons.prems have "funcAt (drop 0 ((c # pre) @ s)) = None" by blast
    then have h: "funcAt (c # pre @ s) = None" by simp
    have "\<forall>k<length pre. funcAt (drop k (pre @ s)) = None"
    proof (intro allI impI)
      fix k assume "k < length pre"
      then have "Suc k < length (c # pre)" by simp
      with Cons.prems have "funcAt (drop (Suc k) ((c # pre) @ s)) = None" by blast
      then show "funcAt (drop k (pre @ s)) = None" by (simp del: drop_append)
    qed
    then have "funcMatch (pre @ s) = funcMatch s" by (rule Cons.IH)
    then show ?case using h by simp
  qed
  then show ?thesis using assms unfolding list_all_upt by blast
qed

lemma funcMatch_here: "funcAt s = Some w \<Longrightarrow> funcMatch s = Some w"
  by (cases s) (simp_all add: funcAt_def)

lemma fieldTake_nonempty: "s \<noteq> [] \<Longrightarrow> leadSpace s = 0 \<Longrightarrow> fieldTake s \<noteq> []"
  by (cases s) simp_all

lemma Fields_first:
  "(case strings_Fields sig of [] \<Rightarrow> [] | w # ws \<Rightarrow> w) = fieldTake (TrimLeft sig)"
  by (subst strings_Fields.simps) (simp add: Let_def)

text \<open>
  Claim C4. The identifier of a signature is found by an ordered fallback. (1) A
  signature that starts with \<^verbatim>\<open>class\<close> or \<^verbatim>\<open>struct\<close>, white space and an identifier
  gives that identifier, whatever follows. (2) Otherwise, the first position from which
  a word, optional white space and an opening parenthesis follow gives that word.
  (3) Otherwise the first white-space-delimited token is the identifier, and (4) it is
  empty when the signature has no token; the element extractor then stores
  \<^verbatim>\<open>unnamed_\<close> followed by the count of the elements emitted before. The
  signature \<^verbatim>\<open>class Widget\<close> gives \<^verbatim>\<open>Widget\<close>, \<^verbatim>\<open>int add(int a, int b)\<close> gives
  \<^verbatim>\<open>add\<close>, and a run without a signature after one element gives \<^verbatim>\<open>unnamed_1\<close>.
\<close>

theorem extractIDFromSig_fallback:
  "((kw = ''class'' \<or> kw = ''struct'') \<and> ws \<noteq> [] \<and> list_all reSpace ws \<and> w \<noteq> [] \<and>
    list_all reWord w \<and> (rest = [] \<or> \<not> reWord (hd rest)) \<longrightarrow>
      extractIDFromSig (kw @ ws @ w @ rest) = w) \<and>
   (classMatch sig = None \<and> sig = pre @ w @ ws @ CHR ''('' # rest \<and> w \<noteq> [] \<and>
    list_all reWord w \<and> list_all reSpace ws \<and>
    list_all (\<lambda>k. funcAt (drop k sig) = None) [0..<length pre] \<longrightarrow>
      extractIDFromSig sig = w) \<and>
   (classMatch sig = None \<and> funcMatch sig = None \<and> TrimLeft sig \<noteq> [] \<longrightarrow>
      extractIDFromSig sig = fieldTake (TrimLeft sig) \<and> extractIDFromSig sig \<noteq> []) \<and>
   (classMatch sig = None \<and> funcMatch sig = None \<and> TrimLeft sig = [] \<longrightarrow>
      extractIDFromSig sig = []) \<and>
   (i < length lines \<and> hasDocPrefix prefix (lines ! i) \<and> kept prefix ign (lines ! i) \<longrightarrow>
      ID (last (snd (elemIter lines prefix ign i els))) =
        (if extractIDFromSig (Signature (last (snd (elemIter lines prefix ign i els)))) = []
         then ''unnamed_'' @ itoa (length els)
         else extractIDFromSig (Signature (last (snd (elemIter lines prefix ign i els)))))) \<and>
   extractIDFromSig ''class Widget'' = ''Widget'' \<and>
   extractIDFromSig ''int add(int a, int b)'' = ''add'' \<and>
   extractElements [''/// first'', ''int add(int a, int b) {'', ''/// second''] ''///'' False =
     ([\<lparr>ID = ''add'', Description = ''first'', Signature = ''int add(int a, int b)''\<rparr>,
       \<lparr>ID = ''unnamed_1'', Description = ''second'', Signature = []\<rparr>], [])"
proof (intro conjI impI)
  assume "(kw = ''class'' \<or> kw = ''struct'') \<and> ws \<noteq> [] \<and> list_all reSpace ws \<and> w \<noteq> [] \<and>
    list_all reWord w \<and> (rest = [] \<or> \<not> reWord (hd rest))"
  then have "classMatch (kw @ ws @ w @ rest) = Some w"
    by (intro classMatch_match) simp_all
  then show "extractIDFromSig (kw @ ws @ w @ rest) = w"
    by (simp add: extractIDFromSig_def)
next
  assume a: "classMatch sig = None \<and> sig = pre @ w @ ws @ CHR ''('' # rest \<and> w \<noteq> [] \<and>
    list_all reWord w \<and> list_all reSpace ws \<and>
    list_all (\<lambda>k. funcAt (drop k sig) = None) [0..<length pre]"
  then have "funcAt (w @ ws @ CHR ''('' # rest) = Some w"
    unfolding funcAt_iff by blast
  then have here: "funcMatch (w @ ws @ CHR ''('' # rest) = Some w" by (rule funcMatch_here)
  from a have s: "sig = pre @ w @ ws @ CHR ''('' # rest"
    and n: "list_all (\<lambda>k. funcAt (drop k sig) = None) [0..<length pre]"
    and cm: "classMatch sig = None" by blast+
  have "funcMatch sig = funcMatch (w @ ws @ CHR ''('' # rest)"
    unfolding s by (rule funcMatch_later [OF n [unfolded s]])
  then have fm: "funcMatch sig = Some w" using here by simp
  show "extractIDFromSig sig = w"
    by (simp add: extractIDFromSig_def cm fm)
next
  assume a: "classMatch sig = None \<and> funcMatch sig = None \<and> TrimLeft sig \<noteq> []"
  then have e: "extractIDFromSig sig = fieldTake (TrimLeft sig)"
    by (simp add: extractIDFromSig_def Fields_first)
  then show "extractIDFromSig sig = fieldTake (TrimLeft sig)" .
  show "extractIDFromSig sig \<noteq> []"
    unfolding e using a by (intro fieldTake_nonempty leadSpace_TrimLeft) simp
next
  assume "classMatch sig = None \<and> funcMatch sig = None \<and> TrimLeft sig = []"
  then show "extractIDFromSig sig = []"
    by (simp add: extractIDFromSig_def Fields_first)
next
  assume "i < length lines \<and> hasDocPrefix prefix (lines ! i) \<and> kept prefix ign (lines ! i)"
  then show "ID (last (snd (elemIter lines prefix ign i els))) =
        (if extractIDFromSig (Signature (last (snd (elemIter lines prefix ign i els)))) = []
         then ''unnamed_'' @ itoa (length els)
         else extractIDFromSig (Signature (last (snd (elemIter lines prefix ign i els)))))"
    by (simp add: elemIter_emit newElement_def)
next
  show "extractIDFromSig ''class Widget'' = ''Widget''" by code_simp
  show "extractIDFromSig ''int add(int a, int b)'' = ''add''" by code_simp
  show "extractElements [''/// first'', ''int add(int a, int b) {'', ''/// second'']
          ''///'' False =
     ([\<lparr>ID = ''add'', Description = ''first'', Signature = ''int add(int a, int b)''\<rparr>,
       \<lparr>ID = ''unnamed_1'', Description = ''second'', Signature = []\<rparr>], [])"
    by code_simp
qed

theorem extractIDFromSig_fallback_witness:
  "extractIDFromSig (''struct'' @ [CHR 0x09, CHR '' ''] @ ''Point_2'' @ '' {'') = ''Point_2''
   \<and> classMatch ''static int add (int a)'' = None
   \<and> list_all (\<lambda>k. funcAt (drop k ''static int add (int a)'') = None) [0..<length ''static int '']
   \<and> extractIDFromSig ''static int add (int a)'' = ''add''
   \<and> classMatch ''  x := 1'' = None \<and> funcMatch ''  x := 1'' = None
   \<and> extractIDFromSig ''  x := 1'' = ''x''
   \<and> classMatch ''   '' = None \<and> funcMatch ''   '' = None \<and> TrimLeft ''   '' = []
   \<and> extractIDFromSig ''   '' = []
   \<and> ID (last (snd (elemIter [''/// a'', ''''] ''///'' True 0
        [\<lparr>ID = ''x'', Description = ''y'', Signature = ''z''\<rparr>]))) = ''unnamed_1''"
proof -
  have h1: "(''struct'' = ''class'' \<or> ''struct'' = ''struct'') \<and> [CHR 0x09, CHR '' ''] \<noteq> [] \<and>
     list_all reSpace [CHR 0x09, CHR '' ''] \<and> ''Point_2'' \<noteq> [] \<and>
     list_all reWord ''Point_2'' \<and> ('' {'' = [] \<or> \<not> reWord (hd '' {''))"
    by code_simp
  have h2: "classMatch ''static int add (int a)'' = None \<and>
     ''static int add (int a)'' = ''static int '' @ ''add'' @ '' '' @ CHR ''('' # ''int a)'' \<and>
     ''add'' \<noteq> [] \<and> list_all reWord ''add'' \<and> list_all reSpace '' '' \<and>
     list_all (\<lambda>k. funcAt (drop k ''static int add (int a)'') = None)
       [0..<length ''static int '']"
    by code_simp
  have h3: "classMatch ''  x := 1'' = None \<and> funcMatch ''  x := 1'' = None \<and>
     TrimLeft ''  x := 1'' \<noteq> []"
    by code_simp
  have v3: "fieldTake (TrimLeft ''  x := 1'') = ''x''" by code_simp
  have h4: "classMatch ''   '' = None \<and> funcMatch ''   '' = None \<and> TrimLeft ''   '' = []"
    by code_simp
  have h5: "(0::nat) < length [''/// a'', ''''] \<and> hasDocPrefix ''///'' ([''/// a'', ''''] ! 0) \<and>
     kept ''///'' True ([''/// a'', ''''] ! 0)"
    by code_simp
  have v5: "extractIDFromSig (Signature (last (snd (elemIter [''/// a'', ''''] ''///'' True 0
        [\<lparr>ID = ''x'', Description = ''y'', Signature = ''z''\<rparr>])))) = []"
    by code_simp
  have v6: "''unnamed_'' @ itoa (length [\<lparr>ID = ''x'', Description = ''y'', Signature = ''z''\<rparr>])
            = ''unnamed_1''"
    by code_simp
  have c1: "extractIDFromSig (''struct'' @ [CHR 0x09, CHR '' ''] @ ''Point_2'' @ '' {'') =
            ''Point_2''"
    using extractIDFromSig_fallback [of "''struct''" "[CHR 0x09, CHR '' '']" "''Point_2''"
        "'' {''"] h1 by blast
  have c2: "extractIDFromSig ''static int add (int a)'' = ''add''"
    using extractIDFromSig_fallback [of _ "'' ''" "''add''" "''int a)''"
        "''static int add (int a)''" "''static int ''"] h2 by blast
  have c3: "extractIDFromSig ''  x := 1'' = ''x''"
    using extractIDFromSig_fallback [of _ _ _ _ "''  x := 1''"] h3 v3 by simp
  have c4: "extractIDFromSig ''   '' = []"
    using extractIDFromSig_fallback [of _ _ _ _ "''   ''"] h4 by blast
  have c5: "ID (last (snd (elemIter [''/// a'', ''''] ''///'' True 0
        [\<lparr>ID = ''x'', Description = ''y'', Signature = ''z''\<rparr>]))) = ''unnamed_1''"
    using extractIDFromSig_fallback [of _ _ _ _ _ _ 0 "[''/// a'', '''']" "''///''" True
        "[\<lparr>ID = ''x'', Description = ''y'', Signature = ''z''\<rparr>]"] h5 v5 v6
    by simp
  show ?thesis using h2 h3 h4 c1 c2 c3 c4 c5 by simp
qed

section \<open>Bracketed tokens\<close>










end
